theory Spec2Isabelle
  imports Complex_Main "HOL-Library.Multiset"
begin

section \<open>The command dispatcher of ICommand.hpp\<close>

text \<open>
  The file declares the interface \<^verbatim>\<open>ICommandDispatcher\<close>. Its two \<^verbatim>\<open>iterate\<close> templates and the
  nested class \<^verbatim>\<open>IteratorCommand\<close> carry code; \<^verbatim>\<open>dispatchCommands\<close>, \<^verbatim>\<open>getExecutionUnitsNumber\<close>
  and \<^verbatim>\<open>newSynchro\<close> are pure virtual, and \<^verbatim>\<open>Iterator\<close> and \<^verbatim>\<open>ISynchronizer\<close> are declared in
  other headers.

  The embedding is a small-step semantics. Every command (worker) has a program counter that
  walks through the body of \<^verbatim>\<open>execute\<close>; a scheduler, given as the list of the workers it lets
  move, interleaves the commands. Objects reached through pointers (the synchronizer, the
  functors) live in stores indexed by address.
\<close>

subsection \<open>Collaborators declared elsewhere\<close>

datatype error = SourceAccessFailure

text \<open>
  \<^verbatim>\<open>Iterator<Item>\<close> is an abstract class; the two virtual members that the dispatcher calls are
  the fields of a record of functions over the iterator's own state \<^typ>\<open>'s\<close>.
  \<^verbatim>\<open>get (items)\<close> receives the vector by reference: it is handed the current vector and gives
  back the vector as it leaves it, together with the boolean it returns; a C++ exception
  thrown by it is the \<^term>\<open>Inl\<close> branch.
\<close>

record ('s, 'a) Iterator =
  reset :: "'s \<Rightarrow> 's"
  get :: "'s \<Rightarrow> 'a list \<Rightarrow> error + ('s \<times> 'a list \<times> bool)"

text \<open>An \<^verbatim>\<open>ISynchronizer\<close> is a lock: free, or held by the worker that locked it.\<close>

datatype lockstate = Unlocked | LockedBy nat

subsection \<open>Data\<close>

text \<open>
  The places of \<^verbatim>\<open>IteratorCommand::execute\<close> between two atomic actions:
  before \<^verbatim>\<open>_synchro.lock ()\<close>, before \<^verbatim>\<open>_it->get (items)\<close>, before \<^verbatim>\<open>_synchro.unlock ()\<close>,
  at the head of the inner \<^verbatim>\<open>for\<close> loop with index \<open>i\<close>, after the return of \<^verbatim>\<open>execute\<close>,
  and after an exception has left \<^verbatim>\<open>execute\<close>.
\<close>

datatype pc = AtLock | AtGet | AtUnlock | AtFunctor nat | Finished | Failed

text \<open>
  An \<^verbatim>\<open>IteratorCommand\<close>: the members \<^verbatim>\<open>_fct\<close>, \<^verbatim>\<open>_synchro\<close> (both as addresses) and
  \<^verbatim>\<open>_groupSize\<close>, and the frame of its \<^verbatim>\<open>execute\<close>: the vector \<^verbatim>\<open>items\<close>, the flag
  \<^verbatim>\<open>isRunning\<close> and the program counter. The member \<^verbatim>\<open>_it\<close> is the one iterator of the
  state below, which all commands share.
\<close>

record 'a IteratorCommand =
  fct :: nat
  synchro :: nat
  groupSize :: nat
  items :: "'a list"
  isRunning :: bool
  pc :: pc

text \<open>
  What a caller of \<^verbatim>\<open>iterate\<close> can see: the iterator, the live synchronizers and the live
  functor objects by address, and the next address that \<^verbatim>\<open>new\<close> hands out.
\<close>

record ('s, 'f) world =
  iterator :: 's
  synchros :: "nat \<Rightarrow> lockstate option"
  functors :: "nat \<Rightarrow> 'f option"
  fresh :: nat

text \<open>What happens during one call, in the order in which it happens.\<close>

datatype 'a event =
    NewSynchro nat
  | DeleteSynchro nat
  | Reset
  | Dispatch nat
  | Lock nat nat
  | Get nat "'a list" bool
  | GetFailed nat error
  | Unlock nat nat
  | Call nat nat 'a
  | NewFunctor nat
  | DeleteFunctor nat

text \<open>The state during a call: the world, the commands being dispatched, the events so far.\<close>

record ('s, 'f, 'a) exec = "('s, 'f) world" +
  commands :: "'a IteratorCommand list"
  trace :: "'a event list"

subsection \<open>\<^verbatim>\<open>IteratorCommand\<close>\<close>

text \<open>
  The constructor stores its arguments. The frame is the one \<^verbatim>\<open>execute\<close> starts with:
  \<^verbatim>\<open>std::vector<Item> items (_groupSize)\<close> holds \<^verbatim>\<open>_groupSize\<close> default items \<open>d\<close>, and the outer
  loop begins with \<^verbatim>\<open>isRunning=true\<close>, so the first action is the lock.
\<close>

definition IteratorCommand_new :: "'a \<Rightarrow> nat \<Rightarrow> nat \<Rightarrow> nat \<Rightarrow> 'a IteratorCommand" where
  "IteratorCommand_new d sid G a =
     \<lparr>fct = a, synchro = sid, groupSize = G, items = replicate G d, isRunning = True, pc = AtLock\<rparr>"

text \<open>
  One atomic action of worker \<open>w\<close> in \<^verbatim>\<open>execute\<close>.
  \<^item> \<^verbatim>\<open>_synchro.lock ()\<close> goes through when the synchronizer is free; otherwise the worker waits
    (the state is unchanged).
  \<^item> \<^verbatim>\<open>isRunning = _it->get (items)\<close> updates the iterator, the vector and the flag; when
    \<^verbatim>\<open>get\<close> throws, the exception leaves \<^verbatim>\<open>execute\<close>, which has no handler: nothing after the
    call is run.
  \<^item> \<^verbatim>\<open>_synchro.unlock ()\<close> frees the synchronizer.
  \<^item> \<^verbatim>\<open>for (size_t i=0; i<items.size(); i++)  (*_fct) (items[i])\<close>: one call of the functor
    per step; when \<open>i\<close> has reached the size of the vector the outer loop tests \<^verbatim>\<open>isRunning\<close>.
  The functor is called through its pointer; \<open>app f x\<close> is the state of functor \<open>f\<close> after
  \<^verbatim>\<open>operator()\<close> on \<open>x\<close>. A functor call is taken to return; a functor that blocks leaves
  its worker at the place of the call for as long as the scheduler does not let it move.
\<close>

definition step ::
  "('s, 'a) Iterator \<Rightarrow> ('f \<Rightarrow> 'a \<Rightarrow> 'f) \<Rightarrow> nat \<Rightarrow> ('s, 'f, 'a) exec \<Rightarrow> ('s, 'f, 'a) exec" where
  "step it app w st =
    (if length (commands st) \<le> w then st
     else
       let c = commands st ! w in
       case pc c of
         AtLock \<Rightarrow>
           (case synchros st (synchro c) of
              Some Unlocked \<Rightarrow>
                st\<lparr>synchros := (synchros st)(synchro c \<mapsto> LockedBy w),
                   commands := (commands st)[w := c\<lparr>pc := AtGet\<rparr>],
                   trace := trace st @ [Lock w (synchro c)]\<rparr>
            | _ \<Rightarrow> st)
       | AtGet \<Rightarrow>
           (case get it (iterator st) (items c) of
              Inl e \<Rightarrow>
                st\<lparr>commands := (commands st)[w := c\<lparr>pc := Failed\<rparr>],
                   trace := trace st @ [GetFailed w e]\<rparr>
            | Inr (s', batch, hasMore) \<Rightarrow>
                st\<lparr>iterator := s',
                   commands := (commands st)[w := c\<lparr>items := batch, isRunning := hasMore, pc := AtUnlock\<rparr>],
                   trace := trace st @ [Get w batch hasMore]\<rparr>)
       | AtUnlock \<Rightarrow>
           st\<lparr>synchros := (synchros st)(synchro c \<mapsto> Unlocked),
              commands := (commands st)[w := c\<lparr>pc := AtFunctor 0\<rparr>],
              trace := trace st @ [Unlock w (synchro c)]\<rparr>
       | AtFunctor i \<Rightarrow>
           if i < length (items c) then
             st\<lparr>functors := (functors st)(fct c := map_option (\<lambda>f. app f (items c ! i)) (functors st (fct c))),
                commands := (commands st)[w := c\<lparr>pc := AtFunctor (Suc i)\<rparr>],
                trace := trace st @ [Call w (fct c) (items c ! i)]\<rparr>
           else
             st\<lparr>commands := (commands st)[w := c\<lparr>pc := (if isRunning c then AtLock else Finished)\<rparr>]\<rparr>
       | Finished \<Rightarrow> st
       | Failed \<Rightarrow> st)"

subsection \<open>\<^verbatim>\<open>dispatchCommands\<close>\<close>

text \<open>
  Modelled from the spec: \<^verbatim>\<open>dispatchCommands\<close> is pure virtual, no implementation is in this
  file. The spec's \<^verbatim>\<open>Dispatcher.dispatch\<close> "runs every task to completion, using however
  many execution units the backend provides (tasks may run strictly sequentially in a serial
  backend, or concurrently)" and "returns only after all tasks have finished". The backend is
  a schedule: the list of the workers that move, one atomic action each. The call has
  returned when the schedule has brought every command to the end of its \<^verbatim>\<open>execute\<close>; under
  any other schedule the result is \<^term>\<open>None\<close>: the call has not returned (a command is still
  running or waiting, or was left by an exception).
\<close>

definition run ::
  "('s, 'a) Iterator \<Rightarrow> ('f \<Rightarrow> 'a \<Rightarrow> 'f) \<Rightarrow> nat list \<Rightarrow> ('s, 'f, 'a) exec \<Rightarrow> ('s, 'f, 'a) exec" where
  "run it app sched st = fold (step it app) sched st"

definition launch :: "'a IteratorCommand list \<Rightarrow> ('s, 'f, 'a) exec \<Rightarrow> ('s, 'f, 'a) exec" where
  "launch cmds st = st\<lparr>commands := cmds, trace := trace st @ [Dispatch (length cmds)]\<rparr>"

definition all_finished :: "('s, 'f, 'a) exec \<Rightarrow> bool" where
  "all_finished st = list_all (\<lambda>c. pc c = Finished) (commands st)"

definition dispatchCommands ::
  "('s, 'a) Iterator \<Rightarrow> ('f \<Rightarrow> 'a \<Rightarrow> 'f) \<Rightarrow> nat list \<Rightarrow> 'a IteratorCommand list \<Rightarrow>
   ('s, 'f, 'a) exec \<Rightarrow> ('s, 'f, 'a) exec option" where
  "dispatchCommands it app sched cmds st =
     (let st' = run it app sched (launch cmds st)
      in if all_finished st' then Some st' else None)"

subsection \<open>\<^verbatim>\<open>iterate\<close> over a vector of functors\<close>

text \<open>
  Modelled from the spec: \<^verbatim>\<open>newSynchro\<close> is pure virtual. The spec has \<^verbatim>\<open>iterate\<close> "construct
  one fresh Synchronizer": the factory allocates a new, free synchronizer.
\<close>

definition newSynchro :: "('s, 'f) world \<Rightarrow> nat \<times> ('s, 'f) world" where
  "newSynchro w = (fresh w, w\<lparr>synchros := (synchros w)(fresh w \<mapsto> Unlocked), fresh := Suc (fresh w)\<rparr>)"

text \<open>
  The state that \<^verbatim>\<open>iterate\<close> hands to \<^verbatim>\<open>dispatchCommands\<close>, and the commands it has built:
  the synchronizer is created, one command is pushed per functor of the vector, the iterator
  is reset.
\<close>

definition iterate_commands :: "'a \<Rightarrow> nat list \<Rightarrow> nat \<Rightarrow> ('s, 'f) world \<Rightarrow> 'a IteratorCommand list" where
  "iterate_commands d fs G w = map (IteratorCommand_new d (fst (newSynchro w)) G) fs"

definition iterate_prepare :: "('s, 'a) Iterator \<Rightarrow> ('s, 'f) world \<Rightarrow> ('s, 'f, 'a) exec" where
  "iterate_prepare it w =
     (let (sid, w1) = newSynchro w;
          w2 = w1\<lparr>iterator := reset it (iterator w1)\<rparr>
      in world.extend w2 (exec.fields [] [NewSynchro sid, Reset]))"

definition delete_synchro :: "nat \<Rightarrow> ('s, 'f, 'a) exec \<Rightarrow> ('s, 'f, 'a) exec" where
  "delete_synchro sid st = st\<lparr>synchros := (synchros st)(sid := None), trace := trace st @ [DeleteSynchro sid]\<rparr>"

definition iterate ::
  "('s, 'a) Iterator \<Rightarrow> ('f \<Rightarrow> 'a \<Rightarrow> 'f) \<Rightarrow> 'a \<Rightarrow> nat list \<Rightarrow> nat list \<Rightarrow> nat \<Rightarrow>
   ('s, 'f) world \<Rightarrow> (('s, 'f) world \<times> 'a event list) option" where
  "iterate it app d sched fs G w =
     (case dispatchCommands it app sched (iterate_commands d fs G w) (iterate_prepare it w) of
        None \<Rightarrow> None
      | Some st \<Rightarrow>
          (let st' = delete_synchro (fst (newSynchro w)) st
           in Some (world.truncate st', trace st')))"

text \<open>The state inside the call of \<^verbatim>\<open>dispatchCommands\<close> once the scheduler has let \<open>sched\<close> move.\<close>

definition iterate_state ::
  "('s, 'a) Iterator \<Rightarrow> ('f \<Rightarrow> 'a \<Rightarrow> 'f) \<Rightarrow> 'a \<Rightarrow> nat list \<Rightarrow> nat list \<Rightarrow> nat \<Rightarrow>
   ('s, 'f) world \<Rightarrow> ('s, 'f, 'a) exec" where
  "iterate_state it app d sched fs G w =
     run it app sched (launch (iterate_commands d fs G w) (iterate_prepare it w))"

subsection \<open>\<^verbatim>\<open>iterate\<close> with one functor\<close>

text \<open>
  \<^verbatim>\<open>functors[i] = new Functor (functor)\<close>, for \<open>n\<close> values of \<open>i\<close>: each copy gets the next
  address and the state \<open>f\<close> of the functor it is copied from.
\<close>

primrec new_functors :: "nat \<Rightarrow> 'f \<Rightarrow> ('s, 'f) world \<Rightarrow> nat list \<times> ('s, 'f) world" where
  "new_functors 0 f w = ([], w)"
| "new_functors (Suc n) f w =
     (let a = fresh w;
          (as, w') = new_functors n f (w\<lparr>functors := (functors w)(a \<mapsto> f), fresh := Suc a\<rparr>)
      in (a # as, w'))"

text \<open>\<^verbatim>\<open>delete functors[i]\<close> for every \<open>i\<close>.\<close>

definition delete_functors :: "nat list \<Rightarrow> ('s, 'f) world \<Rightarrow> ('s, 'f) world" where
  "delete_functors as w = fold (\<lambda>a w. w\<lparr>functors := (functors w)(a := None)\<rparr>) as w"

text \<open>
  The rest of the overload once the copies exist, at the addresses \<open>as\<close> in the world \<open>w1\<close>:
  \<^verbatim>\<open>iterate (iterator, functors, groupSize)\<close> over the vector of copies, then the loop of
  \<^verbatim>\<open>delete\<close>.
\<close>

fun iterate_copies ::
  "('s, 'a) Iterator \<Rightarrow> ('f \<Rightarrow> 'a \<Rightarrow> 'f) \<Rightarrow> 'a \<Rightarrow> nat list \<Rightarrow> nat \<Rightarrow>
   nat list \<times> ('s, 'f) world \<Rightarrow> (('s, 'f) world \<times> 'a event list) option" where
  "iterate_copies it app d sched G (as, w1) =
     (case iterate it app d sched as G w1 of
        None \<Rightarrow> None
      | Some (w2, tr) \<Rightarrow>
          Some (delete_functors as w2, map NewFunctor as @ tr @ map DeleteFunctor as))"

text \<open>
  The overload that takes \<^verbatim>\<open>const Functor& functor\<close>. The reference is the address \<open>a0\<close> of
  the caller's functor; \<open>units\<close> is what the pure virtual \<^verbatim>\<open>getExecutionUnitsNumber ()\<close>
  returns, the size of the vector of copies. A reference to no live object is outside what
  C++ defines and gives \<^term>\<open>None\<close>.
\<close>

definition iterate_single ::
  "('s, 'a) Iterator \<Rightarrow> ('f \<Rightarrow> 'a \<Rightarrow> 'f) \<Rightarrow> 'a \<Rightarrow> nat \<Rightarrow> nat list \<Rightarrow> nat \<Rightarrow> nat \<Rightarrow>
   ('s, 'f) world \<Rightarrow> (('s, 'f) world \<times> 'a event list) option" where
  "iterate_single it app d units sched a0 G w =
     (case functors w a0 of
        None \<Rightarrow> None
      | Some f \<Rightarrow> iterate_copies it app d sched G (new_functors units f w))"

subsection \<open>The sequential source of the spec\<close>

text \<open>
  Modelled from the spec: \<^verbatim>\<open>Iterator.hpp\<close>, which declares \<^verbatim>\<open>get\<close> and \<^verbatim>\<open>reset\<close>, is not
  among the sources. The spec's
  SequentialSource "owns an internal cursor over an ordered sequence of Item; supports
  \<^verbatim>\<open>reset()\<close> (cursor to start) and \<^verbatim>\<open>fetchBatch(maxCount)\<close> giving \<^verbatim>\<open>(items, hasMore)\<close>", "yields
  items in a fixed order and supports retrieving up to K items at a time, reporting whether
  more remain".
\<close>

record 'a SequentialSource =
  content :: "'a list"
  cursor :: nat

definition fetchBatch :: "'a SequentialSource \<Rightarrow> nat \<Rightarrow> 'a SequentialSource \<times> 'a list \<times> bool" where
  "fetchBatch s maxCount =
     (let batch = take maxCount (drop (cursor s) (content s));
          s' = s\<lparr>cursor := cursor s + length batch\<rparr>
      in (s', batch, cursor s' < length (content s')))"

definition source_reset :: "'a SequentialSource \<Rightarrow> 'a SequentialSource" where
  "source_reset s = s\<lparr>cursor := 0\<rparr>"

text \<open>
  The source behind the \<^verbatim>\<open>Iterator\<close> interface: \<^verbatim>\<open>execute\<close> passes no count to \<^verbatim>\<open>get\<close>, only the
  vector, whose size is the number of items asked for; the vector comes back holding the batch.
\<close>

definition source_iterator :: "('a SequentialSource, 'a) Iterator" where
  "source_iterator = \<lparr>reset = source_reset, get = (\<lambda>s v. Inr (fetchBatch s (length v)))\<rparr>"

subsection \<open>Reading a trace\<close>

fun call_item :: "'a event \<Rightarrow> 'a list" where
  "call_item (Call w a x) = [x]"
| "call_item _ = []"

text \<open>Every item passed to a functor, in the order of the calls.\<close>

definition passed :: "'a event list \<Rightarrow> 'a list" where
  "passed tr = concat (map call_item tr)"

fun call_by :: "nat \<Rightarrow> 'a event \<Rightarrow> 'a list" where
  "call_by w (Call w' a x) = (if w' = w then [x] else [])"
| "call_by w _ = []"

text \<open>The items that worker \<open>w\<close> passed to its functor, in the order of the calls.\<close>

definition calls_of :: "nat \<Rightarrow> 'a event list \<Rightarrow> 'a list" where
  "calls_of w tr = concat (map (call_by w) tr)"

fun fetch_by :: "nat \<Rightarrow> 'a event \<Rightarrow> ('a list \<times> bool) list" where
  "fetch_by w (Get w' b m) = (if w' = w then [(b, m)] else [])"
| "fetch_by w _ = []"

text \<open>The fetches of worker \<open>w\<close>, batch and returned flag, in the order of the fetches.\<close>

definition fetches_of :: "nat \<Rightarrow> 'a event list \<Rightarrow> ('a list \<times> bool) list" where
  "fetches_of w tr = concat (map (fetch_by w) tr)"






section \<open>Invariants\<close>

subsection \<open>Mutual exclusion\<close>

text \<open>The places at which a worker holds its synchronizer.\<close>

definition in_critical :: "pc \<Rightarrow> bool" where
  "in_critical p = (p = AtGet \<or> p = AtUnlock \<or> p = Failed)"

text \<open>A synchronizer is held by worker \<open>w\<close> exactly when \<open>w\<close> is at one of these places.\<close>

definition mutex :: "('s, 'f, 'a) exec \<Rightarrow> bool" where
  "mutex st = (\<forall>w < length (commands st).
      (synchros st (synchro (commands st ! w)) = Some (LockedBy w)) = in_critical (pc (commands st ! w)))"

subsection \<open>The source during a call\<close>


subsection \<open>The synchronizer of a call\<close>


subsection \<open>What a worker fetches and what it passes on\<close>

text \<open>The items a worker has fetched and not yet passed to its functor.\<close>

definition pending :: "'a IteratorCommand \<Rightarrow> 'a list" where
  "pending c = (case pc c of AtUnlock \<Rightarrow> items c | AtFunctor i \<Rightarrow> drop i (items c) | _ \<Rightarrow> [])"

text \<open>What worker \<open>v\<close> has passed to its functor, followed by what it still holds, is what it
  has fetched, batch after batch.\<close>

definition ordered :: "nat \<Rightarrow> ('s, 'f, 'a) exec \<Rightarrow> bool" where
  "ordered v st =
     (calls_of v (trace st) @ pending (commands st ! v) = concat (map fst (fetches_of v (trace st))))"


subsection \<open>Workers over the sequential source\<close>




subsection \<open>Progress\<close>




subsection \<open>Counting the batches\<close>




subsection \<open>The functor objects\<close>

text \<open>The functor objects that a trace creates and deletes, and the calls it makes: which
  worker calls the functor at which address.\<close>

fun copied :: "'a event \<Rightarrow> nat list" where
  "copied (NewFunctor a) = [a]"
| "copied _ = []"

fun discarded :: "'a event \<Rightarrow> nat list" where
  "discarded (DeleteFunctor a) = [a]"
| "discarded _ = []"

fun called_by :: "'a event \<Rightarrow> (nat \<times> nat) list" where
  "called_by (Call v a x) = [(v, a)]"
| "called_by _ = []"

text \<open>
  During the dispatch over the functors at the addresses \<open>fs\<close>: worker \<open>v\<close> calls the functor
  at \<open>fs ! v\<close> and no other, the functor objects at other addresses are as in \<open>F0\<close>, and no
  functor object is created or deleted.
\<close>

definition functor_frame :: "nat list \<Rightarrow> (nat \<Rightarrow> 'f option) \<Rightarrow> ('s, 'f, 'a) exec \<Rightarrow> bool" where
  "functor_frame fs F0 st =
     (length (commands st) = length fs \<and>
      (\<forall>v < length fs. fct (commands st ! v) = fs ! v) \<and>
      (\<forall>a. a \<notin> set fs \<longrightarrow> functors st a = F0 a) \<and>
      (\<forall>e \<in> set (trace st). \<forall>va \<in> set (called_by e). fst va < length fs \<and> snd va = fs ! fst va) \<and>
      concat (map copied (trace st)) = [] \<and> concat (map discarded (trace st)) = [])"

section \<open>Example inputs\<close>

text \<open>A source of five items that has been read up to the fourth, and two functors that
  record what they are called with.\<close>

definition example_world :: "(nat SequentialSource, nat list) world" where
  "example_world =
     \<lparr>iterator = \<lparr>content = [10, 11, 12, 13, 14], cursor = 3\<rparr>,
      synchros = (\<lambda>a. None), functors = [0 \<mapsto> [], 1 \<mapsto> []], fresh = 2\<rparr>"

definition record_item :: "nat list \<Rightarrow> nat \<Rightarrow> nat list" where
  "record_item f x = f @ [x]"

text \<open>An iterator whose \<^verbatim>\<open>get\<close> throws at every call.\<close>

definition failing_iterator :: "(nat SequentialSource, nat) Iterator" where
  "failing_iterator = \<lparr>reset = source_reset, get = (\<lambda>s v. Inl SourceAccessFailure)\<rparr>"

text \<open>A schedule that lets two workers alternate and brings both to their end.\<close>

definition example_schedule :: "nat list" where
  "example_schedule = [0,1,0,1,0,1,0,1,0,1,0,1,1,1,0,0,0,0,0,0,0,0,1,1,1,1,1,1,1]"


section \<open>Facts about the steps\<close>

lemma step_cases [case_names idle lock fail fetch unlock call loop]:
  fixes st :: "('s, 'f, 'a) exec"
  obtains
    (idle) "step it app w st = st"
      "length (commands st) \<le> w \<or> pc (commands st ! w) = Finished \<or> pc (commands st ! w) = Failed \<or>
       (pc (commands st ! w) = AtLock \<and> synchros st (synchro (commands st ! w)) \<noteq> Some Unlocked)"
  | (lock) "w < length (commands st)" "pc (commands st ! w) = AtLock"
      "synchros st (synchro (commands st ! w)) = Some Unlocked"
      "step it app w st =
         st\<lparr>synchros := (synchros st)(synchro (commands st ! w) \<mapsto> LockedBy w),
            commands := (commands st)[w := (commands st ! w)\<lparr>pc := AtGet\<rparr>],
            trace := trace st @ [Lock w (synchro (commands st ! w))]\<rparr>"
  | (fail) e where "w < length (commands st)" "pc (commands st ! w) = AtGet"
      "get it (iterator st) (items (commands st ! w)) = Inl e"
      "step it app w st =
         st\<lparr>commands := (commands st)[w := (commands st ! w)\<lparr>pc := Failed\<rparr>],
            trace := trace st @ [GetFailed w e]\<rparr>"
  | (fetch) s' batch hasMore where "w < length (commands st)" "pc (commands st ! w) = AtGet"
      "get it (iterator st) (items (commands st ! w)) = Inr (s', batch, hasMore)"
      "step it app w st =
         st\<lparr>iterator := s',
            commands := (commands st)[w := (commands st ! w)\<lparr>items := batch, isRunning := hasMore, pc := AtUnlock\<rparr>],
            trace := trace st @ [Get w batch hasMore]\<rparr>"
  | (unlock) "w < length (commands st)" "pc (commands st ! w) = AtUnlock"
      "step it app w st =
         st\<lparr>synchros := (synchros st)(synchro (commands st ! w) \<mapsto> Unlocked),
            commands := (commands st)[w := (commands st ! w)\<lparr>pc := AtFunctor 0\<rparr>],
            trace := trace st @ [Unlock w (synchro (commands st ! w))]\<rparr>"
  | (call) i where "w < length (commands st)" "pc (commands st ! w) = AtFunctor i"
      "i < length (items (commands st ! w))"
      "step it app w st =
         st\<lparr>functors := (functors st)(fct (commands st ! w) :=
                 map_option (\<lambda>f. app f (items (commands st ! w) ! i)) (functors st (fct (commands st ! w)))),
            commands := (commands st)[w := (commands st ! w)\<lparr>pc := AtFunctor (Suc i)\<rparr>],
            trace := trace st @ [Call w (fct (commands st ! w)) (items (commands st ! w) ! i)]\<rparr>"
  | (loop) i where "w < length (commands st)" "pc (commands st ! w) = AtFunctor i"
      "\<not> i < length (items (commands st ! w))"
      "step it app w st =
         st\<lparr>commands := (commands st)[w := (commands st ! w)\<lparr>pc := (if isRunning (commands st ! w) then AtLock else Finished)\<rparr>]\<rparr>"
proof (cases "length (commands st) \<le> w")
  case True
  then show ?thesis using idle by (simp add: step_def Let_def)
next
  case False
  then have inb: "w < length (commands st)" by simp
  show ?thesis
  proof (cases "pc (commands st ! w)")
    case AtLock
    show ?thesis
    proof (cases "synchros st (synchro (commands st ! w)) = Some Unlocked")
      case True
      then show ?thesis using lock inb AtLock by (simp add: step_def Let_def)
    next
      case False
      then show ?thesis using idle inb AtLock
        by (simp add: step_def Let_def split: option.splits lockstate.splits)
    qed
  next
    case AtGet
    show ?thesis
    proof (cases "get it (iterator st) (items (commands st ! w))")
      case (Inl e)
      then show ?thesis using fail inb AtGet by (simp add: step_def Let_def)
    next
      case (Inr r)
      then show ?thesis using fetch[of "fst r" "fst (snd r)" "snd (snd r)"] inb AtGet
        by (simp add: step_def Let_def split: prod.splits)
    qed
  next
    case AtUnlock
    then show ?thesis using unlock inb by (simp add: step_def Let_def)
  next
    case (AtFunctor i)
    then show ?thesis using call[of i] loop[of i] inb by (cases "i < length (items (commands st ! w))") (simp_all add: step_def Let_def)
  next
    case Finished
    then show ?thesis using idle inb by (simp add: step_def Let_def)
  next
    case Failed
    then show ?thesis using idle inb by (simp add: step_def Let_def)
  qed
qed

lemma run_Nil [simp]: "run it app [] st = st" by (simp add: run_def)
lemma run_Cons [simp]: "run it app (w # sched) st = run it app sched (step it app w st)" by (simp add: run_def)
lemma run_append: "run it app (s1 @ s2) st = run it app s2 (run it app s1 st)" by (simp add: run_def)

lemma run_invariant:
  assumes "P st" and "\<And>w s. P s \<Longrightarrow> P (step it app w s)"
  shows "P (run it app sched st)"
  using assms(1)
proof (induction sched arbitrary: st)
  case Nil then show ?case by simp
next
  case (Cons w sched)
  then show ?case using assms(2) by simp
qed

subsection \<open>Mutual exclusion\<close>

lemma mutex_step:
  assumes "mutex st"
  shows "mutex (step it app w st)"
  unfolding mutex_def
proof (intro allI impI)
  fix v assume "v < length (commands (step it app w st))"
  then have v: "v < length (commands st)"
    by (cases rule: step_cases[of it app w st]) simp_all
  have hv: "(synchros st (synchro (commands st ! v)) = Some (LockedBy v)) = in_critical (pc (commands st ! v))"
    using assms v by (simp add: mutex_def)
  show "(synchros (step it app w st) (synchro (commands (step it app w st) ! v)) = Some (LockedBy v)) =
        in_critical (pc (commands (step it app w st) ! v))"
  proof (cases rule: step_cases[of it app w st])
    case idle then show ?thesis using hv by simp
  next
    case lock
    then show ?thesis using hv v unfolding lock(4)
      by (cases "v = w") (auto simp add: in_critical_def nth_list_update)
  next
    case (fail e)
    then show ?thesis using hv v unfolding fail(4)
      by (cases "v = w") (auto simp add: in_critical_def nth_list_update)
  next
    case (fetch s' batch hasMore)
    then show ?thesis using hv v unfolding fetch(4)
      by (cases "v = w") (auto simp add: in_critical_def nth_list_update)
  next
    case unlock
    have hw: "synchros st (synchro (commands st ! w)) = Some (LockedBy w)"
      using assms unlock(1,2) by (simp add: mutex_def in_critical_def)
    show ?thesis using hv hw v unlock(1,2) unfolding unlock(3)
      by (cases "v = w") (auto simp add: in_critical_def nth_list_update)
  next
    case (call i)
    then show ?thesis using hv v unfolding call(4)
      by (cases "v = w") (auto simp add: in_critical_def nth_list_update)
  next
    case (loop i)
    then show ?thesis using hv v unfolding loop(4)
      by (cases "v = w") (auto simp add: in_critical_def nth_list_update)
  qed
qed

lemma step_length [simp]: "length (commands (step it app w st)) = length (commands st)"
  by (cases rule: step_cases[of it app w st]) simp_all

lemma step_other: "v \<noteq> w \<Longrightarrow> commands (step it app w st) ! v = commands st ! v"
  by (cases rule: step_cases[of it app w st]) simp_all

lemma step_static:
  "fct (commands (step it app w st) ! v) = fct (commands st ! v) \<and>
   synchro (commands (step it app w st) ! v) = synchro (commands st ! v) \<and>
   groupSize (commands (step it app w st) ! v) = groupSize (commands st ! v)"
proof (cases "v = w")
  case True
  show ?thesis unfolding True
    by (cases rule: step_cases[of it app w st]) simp_all
next
  case False
  then show ?thesis by (simp add: step_other)
qed

lemma run_length [simp]: "length (commands (run it app sched st)) = length (commands st)"
  by (induction sched arbitrary: st) simp_all

lemma run_static:
  "fct (commands (run it app sched st) ! v) = fct (commands st ! v) \<and>
   synchro (commands (run it app sched st) ! v) = synchro (commands st ! v) \<and>
   groupSize (commands (run it app sched st) ! v) = groupSize (commands st ! v)"
  by (induction sched arbitrary: st) (simp_all add: step_static)

lemma run_other: "v \<notin> set sched \<Longrightarrow> commands (run it app sched st) ! v = commands st ! v"
  by (induction sched arbitrary: st) (simp_all add: step_other)

lemma step_Failed: "pc (commands st ! v) = Failed \<Longrightarrow> pc (commands (step it app w st) ! v) = Failed"
proof (cases "v = w")
  case True
  assume "pc (commands st ! v) = Failed"
  then show ?thesis unfolding True
    by (cases rule: step_cases[of it app w st]) simp_all
next
  case False
  assume "pc (commands st ! v) = Failed"
  then show ?thesis using False by (simp add: step_other)
qed

lemma run_Failed: "pc (commands st ! v) = Failed \<Longrightarrow> pc (commands (run it app sched st) ! v) = Failed"
  by (induction sched arbitrary: st) (simp_all add: step_Failed)

lemma mutexD:
  "mutex st \<Longrightarrow> v < length (commands st) \<Longrightarrow>
   (synchros st (synchro (commands st ! v)) = Some (LockedBy v)) = in_critical (pc (commands st ! v))"
  by (simp add: mutex_def)

lemma mutex_run: "mutex st \<Longrightarrow> mutex (run it app sched st)"
  by (rule run_invariant) (simp_all add: mutex_step)

subsection \<open>The state at the call of \<^verbatim>\<open>dispatchCommands\<close>\<close>

lemma iterate_state_run:
  "iterate_state it app d sched fs G w = run it app sched (iterate_state it app d [] fs G w)"
  by (simp add: iterate_state_def)

lemma iterate_state_append:
  "iterate_state it app d (s1 @ s2) fs G w = run it app s2 (iterate_state it app d s1 fs G w)"
  by (simp add: iterate_state_def run_append)

lemma iterate_state_Nil:
  "iterator (iterate_state it app d [] fs G w) = reset it (iterator w)"
  "synchros (iterate_state it app d [] fs G w) = (synchros w)(fresh w \<mapsto> Unlocked)"
  "functors (iterate_state it app d [] fs G w) = functors w"
  "fresh (iterate_state it app d [] fs G w) = Suc (fresh w)"
  "commands (iterate_state it app d [] fs G w) = map (IteratorCommand_new d (fresh w) G) fs"
  "trace (iterate_state it app d [] fs G w) = [NewSynchro (fresh w), Reset, Dispatch (length fs)]"
  by (simp_all add: iterate_state_def launch_def iterate_prepare_def iterate_commands_def newSynchro_def
      world.defs exec.defs)

lemma iterate_state_length [simp]: "length (commands (iterate_state it app d sched fs G w)) = length fs"
  by (subst iterate_state_run) (simp add: iterate_state_Nil)

lemma iterate_state_static:
  assumes "v < length fs"
  shows "fct (commands (iterate_state it app d sched fs G w) ! v) = fs ! v"
    and "synchro (commands (iterate_state it app d sched fs G w) ! v) = fresh w"
    and "groupSize (commands (iterate_state it app d sched fs G w) ! v) = G"
  using assms
  by (subst iterate_state_run, simp add: run_static iterate_state_Nil IteratorCommand_new_def)+

lemma iterate_state_mutex: "mutex (iterate_state it app d sched fs G w)"
proof -
  have "mutex (iterate_state it app d [] fs G w)"
    by (simp add: mutex_def iterate_state_Nil IteratorCommand_new_def in_critical_def)
  then show ?thesis by (subst iterate_state_run) (rule mutex_run)
qed

lemma step_trace: "\<exists>ev. trace (step it app w st) = trace st @ ev"
  by (cases rule: step_cases[of it app w st]) simp_all

lemma run_trace: "\<exists>ev. trace (run it app sched st) = trace st @ ev"
proof (induction sched arbitrary: st)
  case Nil then show ?case by simp
next
  case (Cons w sched)
  obtain e1 where e1: "trace (step it app w st) = trace st @ e1" using step_trace by blast
  obtain e2 where "trace (run it app sched (step it app w st)) = trace (step it app w st) @ e2"
    using Cons.IH by blast
  then show ?case using e1 by simp
qed

lemma iterate_state_trace_start:
  "take 3 (trace (iterate_state it app d sched fs G w)) = [NewSynchro (fresh w), Reset, Dispatch (length fs)]"
proof -
  obtain ev where "trace (iterate_state it app d sched fs G w) = trace (iterate_state it app d [] fs G w) @ ev"
    using run_trace[of it app sched "iterate_state it app d [] fs G w"] iterate_state_run[of it app d sched fs G w]
    by auto
  then show ?thesis by (simp add: iterate_state_Nil)
qed

lemma iterate_Some:
  "iterate it app d sched fs G w = Some (w', tr) \<longleftrightarrow>
     all_finished (iterate_state it app d sched fs G w) \<and>
     w' = world.truncate (delete_synchro (fresh w) (iterate_state it app d sched fs G w)) \<and>
     tr = trace (iterate_state it app d sched fs G w) @ [DeleteSynchro (fresh w)]"
  by (auto simp add: iterate_def dispatchCommands_def iterate_state_def Let_def newSynchro_def delete_synchro_def)

subsection \<open>The sequential source\<close>






subsection \<open>The synchronizer of a call\<close>

lemma run_no_commands: "commands st = [] \<Longrightarrow> run it app sched st = st"
  by (induction sched arbitrary: st) (simp_all add: step_def)

lemma step_fresh [simp]: "fresh (step it app w st) = fresh st"
  by (cases rule: step_cases[of it app w st]) simp_all

lemma run_fresh [simp]: "fresh (run it app sched st) = fresh st"
  by (induction sched arbitrary: st) simp_all








subsection \<open>What a worker fetches and what it passes on\<close>

lemma ordered_step:
  assumes "ordered v st" and "v < length (commands st)"
  shows "ordered v (step it app w st)"
proof (cases rule: step_cases[of it app w st])
  case idle then show ?thesis using assms by simp
next
  case lock
  then show ?thesis using assms unfolding lock(4)
    by (cases "v = w") (auto simp add: ordered_def pending_def calls_of_def fetches_of_def nth_list_update)
next
  case (fail e)
  then show ?thesis using assms unfolding fail(4)
    by (cases "v = w") (auto simp add: ordered_def pending_def calls_of_def fetches_of_def nth_list_update)
next
  case (fetch s' batch hasMore)
  then show ?thesis using assms unfolding fetch(4)
    by (cases "v = w") (auto simp add: ordered_def pending_def calls_of_def fetches_of_def nth_list_update)
next
  case unlock
  then show ?thesis using assms unfolding unlock(3)
    by (cases "v = w") (auto simp add: ordered_def pending_def calls_of_def fetches_of_def nth_list_update)
next
  case (call i)
  then show ?thesis using assms unfolding call(4)
    by (cases "v = w") (auto simp add: ordered_def pending_def calls_of_def fetches_of_def nth_list_update
        Cons_nth_drop_Suc)
next
  case (loop i)
  then show ?thesis using assms unfolding loop(4)
    by (cases "v = w") (auto simp add: ordered_def pending_def calls_of_def fetches_of_def nth_list_update)
qed

lemma ordered_iterate_state:
  assumes "v < length fs"
  shows "ordered v (iterate_state it app d sched fs G w)"
proof -
  have "ordered v (iterate_state it app d [] fs G w)"
    using assms
    by (simp add: ordered_def iterate_state_Nil calls_of_def fetches_of_def pending_def IteratorCommand_new_def)
  moreover have "v < length (commands (iterate_state it app d [] fs G w))" using assms by simp
  ultimately have "ordered v (run it app sched (iterate_state it app d [] fs G w)) \<and>
      v < length (commands (run it app sched (iterate_state it app d [] fs G w)))"
    by (intro run_invariant[where P = "\<lambda>s. ordered v s \<and> v < length (commands s)"])
       (simp_all add: ordered_step)
  then show ?thesis by (subst iterate_state_run) simp
qed




subsection \<open>Commands that have returned\<close>

lemma all_finishedD: "all_finished st \<Longrightarrow> v < length (commands st) \<Longrightarrow> pc (commands st ! v) = Finished"
  by (simp add: all_finished_def list_all_length)

subsection \<open>Workers over the sequential source\<close>


lemma get_source_iterator_Inl [simp]: "get source_iterator s v \<noteq> Inl e"
  by (simp add: source_iterator_def)












subsection \<open>Progress\<close>






subsection \<open>Calls of iterate that return\<close>


subsection \<open>Counting the batches\<close>






subsection \<open>A first fetch that brings nothing\<close>





subsection \<open>More workers than batches\<close>


subsection \<open>The functor objects\<close>

lemma functor_frame_step:
  assumes "functor_frame fs F0 st"
  shows "functor_frame fs F0 (step it app w st)"
proof (cases rule: step_cases[of it app w st])
  case idle then show ?thesis using assms by simp
next
  case lock
  then show ?thesis using assms unfolding lock(4)
    by (auto simp add: functor_frame_def nth_list_update)
next
  case (fail e)
  then show ?thesis using assms unfolding fail(4)
    by (auto simp add: functor_frame_def nth_list_update)
next
  case (fetch s' batch hasMore)
  then show ?thesis using assms unfolding fetch(4)
    by (auto simp add: functor_frame_def nth_list_update)
next
  case unlock
  then show ?thesis using assms unfolding unlock(3)
    by (auto simp add: functor_frame_def nth_list_update)
next
  case (call i)
  have w: "w < length fs" "fct (commands st ! w) = fs ! w"
    using assms call(1) by (simp_all add: functor_frame_def)
  then have "fs ! w \<in> set fs" by simp
  then show ?thesis using assms call(1) w unfolding call(4)
    by (auto simp add: functor_frame_def nth_list_update)
next
  case (loop i)
  then show ?thesis using assms unfolding loop(4)
    by (auto simp add: functor_frame_def nth_list_update)
qed

lemma functor_frame_iterate_state:
  "functor_frame fs (functors w) (iterate_state it app d sched fs G w)"
proof -
  have "functor_frame fs (functors w) (iterate_state it app d [] fs G w)"
    by (simp add: functor_frame_def iterate_state_Nil IteratorCommand_new_def)
  then show ?thesis
    by (subst iterate_state_run) (rule run_invariant, simp_all add: functor_frame_step)
qed

lemma new_functors_result:
  "fst (new_functors n f w) = [fresh w..<fresh w + n] \<and>
   functors (snd (new_functors n f w)) =
     (\<lambda>a. if fresh w \<le> a \<and> a < fresh w + n then Some f else functors w a) \<and>
   fresh (snd (new_functors n f w)) = fresh w + n \<and>
   iterator (snd (new_functors n f w)) = iterator w \<and>
   synchros (snd (new_functors n f w)) = synchros w"
proof (induction n arbitrary: w)
  case 0
  then show ?case by (auto simp add: fun_eq_iff)
next
  case (Suc n)
  let ?w = "w\<lparr>functors := (functors w)(fresh w \<mapsto> f), fresh := Suc (fresh w)\<rparr>"
  note IH = Suc.IH[of ?w]
  have eq: "new_functors (Suc n) f w = (fresh w # fst (new_functors n f ?w), snd (new_functors n f ?w))"
    by (simp add: Let_def split: prod.splits)
  show ?case unfolding eq using IH by (auto simp add: upt_conv_Cons fun_eq_iff)
qed

lemma delete_functors_result:
  "functors (delete_functors as w) = (\<lambda>a. if a \<in> set as then None else functors w a) \<and>
   fresh (delete_functors as w) = fresh w \<and> iterator (delete_functors as w) = iterator w \<and>
   synchros (delete_functors as w) = synchros w"
  unfolding delete_functors_def
  by (induction as arbitrary: w) (auto simp add: fun_eq_iff)

lemma iterate_single_Some:
  assumes "iterate_single it app d units sched a0 G w = Some (w', tr)"
  obtains f w2 tr' where "functors w a0 = Some f"
    and "iterate it app d sched (fst (new_functors units f w)) G (snd (new_functors units f w)) = Some (w2, tr')"
    and "w' = delete_functors (fst (new_functors units f w)) w2"
    and "tr = map NewFunctor (fst (new_functors units f w)) @ tr' @ map DeleteFunctor (fst (new_functors units f w))"
proof -
  from assms obtain f where f: "functors w a0 = Some f"
    and c: "iterate_copies it app d sched G (new_functors units f w) = Some (w', tr)"
    by (auto simp add: iterate_single_def split: option.splits)
  have "iterate_copies it app d sched G (fst (new_functors units f w), snd (new_functors units f w)) = Some (w', tr)"
    using c by simp
  then show ?thesis using f that
    by (auto simp only: iterate_copies.simps split: option.splits prod.splits)
qed

subsection \<open>Calls of iterate and the functor objects\<close>

lemma iterate_functor_frame:
  assumes "iterate it app d sched fs G w = Some (w', tr)"
  shows "\<forall>a. a \<notin> set fs \<longrightarrow> functors w' a = functors w a"
    and "\<forall>e \<in> set tr. \<forall>va \<in> set (called_by e). fst va < length fs \<and> snd va = fs ! fst va"
    and "concat (map copied tr) = []" and "concat (map discarded tr) = []"
proof -
  let ?st = "iterate_state it app d sched fs G w"
  have tr: "tr = trace ?st @ [DeleteSynchro (fresh w)]"
    and w': "w' = world.truncate (delete_synchro (fresh w) ?st)"
    using assms by (simp_all add: iterate_Some)
  have fr: "functor_frame fs (functors w) ?st" by (rule functor_frame_iterate_state)
  have "functors w' = functors ?st" using w' by (simp add: delete_synchro_def world.defs)
  then show "\<forall>a. a \<notin> set fs \<longrightarrow> functors w' a = functors w a"
    using fr by (simp add: functor_frame_def)
  show "\<forall>e \<in> set tr. \<forall>va \<in> set (called_by e). fst va < length fs \<and> snd va = fs ! fst va"
    using fr tr by (auto simp add: functor_frame_def)
  show "concat (map copied tr) = []" "concat (map discarded tr) = []"
    using fr tr by (simp_all add: functor_frame_def)
qed



section \<open>The claims\<close>



text \<open>
  C2, as the code has it. A worker that is about to fetch holds the synchronizer of the
  call. When \<^verbatim>\<open>get\<close> fails, the worker is left by the exception and never moves again, and
  \<^verbatim>\<open>unlock\<close> is not run: under every continuation of the schedule the synchronizer is still
  held by that worker. When \<^verbatim>\<open>get\<close> returns, the next step of the worker, whatever the other
  workers do in between, is the unlock, and leaves the synchronizer free.
\<close>

theorem fetch_failure_keeps_lock:
  assumes "st = iterate_state it app d sched fs G w0" and "v < length fs"
    and "pc (commands st ! v) = AtGet"
  shows "synchros st (fresh w0) = Some (LockedBy v) \<and>
         (\<forall>e sched'. get it (iterator st) (items (commands st ! v)) = Inl e \<longrightarrow>
            pc (commands (run it app sched' (step it app v st)) ! v) = Failed \<and>
            synchros (run it app sched' (step it app v st)) (fresh w0) = Some (LockedBy v)) \<and>
         (\<forall>r sched'. get it (iterator st) (items (commands st ! v)) = Inr r \<and> v \<notin> set sched' \<longrightarrow>
            pc (commands (step it app v (run it app sched' (step it app v st))) ! v) = AtFunctor 0 \<and>
            synchros (step it app v (run it app sched' (step it app v st))) (fresh w0) = Some Unlocked)"
proof -
  have v: "v < length (commands st)" using assms by simp
  have m: "mutex st" using assms(1) by (simp add: iterate_state_mutex)
  have sid: "synchro (commands st ! v) = fresh w0" using assms by (simp add: iterate_state_static)
  have held: "synchros st (fresh w0) = Some (LockedBy v)"
    using mutexD[OF m v] sid assms(3) by (simp add: in_critical_def)
  have failure: "pc (commands (run it app sched' (step it app v st)) ! v) = Failed \<and>
      synchros (run it app sched' (step it app v st)) (fresh w0) = Some (LockedBy v)"
    if g: "get it (iterator st) (items (commands st ! v)) = Inl e" for e sched'
  proof -
    let ?st' = "run it app sched' (step it app v st)"
    have "pc (commands (step it app v st) ! v) = Failed"
      using g assms(3) v by (cases rule: step_cases[of it app v st]) simp_all
    then have p: "pc (commands ?st' ! v) = Failed" by (rule run_Failed)
    have "?st' = iterate_state it app d ((sched @ [v]) @ sched') fs G w0"
      unfolding assms(1) by (simp only: iterate_state_append run_Cons run_Nil)
    then have m': "mutex ?st'" and s': "synchro (commands ?st' ! v) = fresh w0"
      using assms(2) by (simp_all only: iterate_state_mutex iterate_state_static)
    have "v < length (commands ?st')" using v by simp
    from mutexD[OF m' this] show ?thesis using p s' by (simp add: in_critical_def)
  qed
  have success: "pc (commands (step it app v (run it app sched' (step it app v st))) ! v) = AtFunctor 0 \<and>
      synchros (step it app v (run it app sched' (step it app v st))) (fresh w0) = Some Unlocked"
    if g: "get it (iterator st) (items (commands st ! v)) = Inr r" and nv: "v \<notin> set sched'" for r sched'
  proof -
    let ?st1 = "run it app sched' (step it app v st)"
    have "pc (commands (step it app v st) ! v) = AtUnlock"
      using g assms(3) v by (cases rule: step_cases[of it app v st]) simp_all
    then have p: "pc (commands ?st1 ! v) = AtUnlock" using nv by (simp add: run_other)
    have "?st1 = iterate_state it app d ((sched @ [v]) @ sched') fs G w0"
      unfolding assms(1) by (simp only: iterate_state_append run_Cons run_Nil)
    then have s1: "synchro (commands ?st1 ! v) = fresh w0"
      using assms(2) by (simp only: iterate_state_static)
    have v1: "v < length (commands ?st1)" using v by simp
    show ?thesis using p s1 v1 by (cases rule: step_cases[of it app v ?st1]) simp_all
  qed
  show ?thesis using held failure success by blast
qed


theorem fetch_failure_keeps_lock_witness:
  "pc (commands (iterate_state failing_iterator record_item 0 [0] [0, 1] 2 example_world) ! 0) = AtGet \<and>
   synchros (iterate_state failing_iterator record_item 0 [0] [0, 1] 2 example_world) 2 = Some (LockedBy 0) \<and>
   pc (commands (run failing_iterator record_item [1, 1, 0]
         (step failing_iterator record_item 0
            (iterate_state failing_iterator record_item 0 [0] [0, 1] 2 example_world))) ! 0) = Failed \<and>
   synchros (run failing_iterator record_item [1, 1, 0]
         (step failing_iterator record_item 0
            (iterate_state failing_iterator record_item 0 [0] [0, 1] 2 example_world))) 2 = Some (LockedBy 0) \<and>
   synchros (step source_iterator record_item 0 (run source_iterator record_item [1, 1]
         (step source_iterator record_item 0
            (iterate_state source_iterator record_item 0 [0] [0, 1] 2 example_world)))) 2 = Some Unlocked"
proof -
  let ?sf = "iterate_state failing_iterator record_item 0 [0] [0, 1] 2 example_world"
  let ?ss = "iterate_state source_iterator record_item 0 [0] [0, 1] 2 example_world"
  have len: "(0::nat) < length [0::nat, 1]" by simp
  have f: "fresh example_world = 2" by (simp add: example_world_def)
  have pf: "pc (commands ?sf ! 0) = AtGet" by code_simp
  have ps: "pc (commands ?ss ! 0) = AtGet" by code_simp
  have gf: "get failing_iterator (iterator ?sf) (items (commands ?sf ! 0)) = Inl SourceAccessFailure"
    by (simp add: failing_iterator_def)
  have gs: "get source_iterator (iterator ?ss) (items (commands ?ss ! 0)) =
        Inr (fetchBatch (iterator ?ss) (length (items (commands ?ss ! 0))))"
    by (simp add: source_iterator_def)
  have n: "(0::nat) \<notin> set [1, 1]" by simp
  note A = fetch_failure_keeps_lock[OF refl len pf]
  note B = fetch_failure_keeps_lock[OF refl len ps]
  have a1: "synchros ?sf 2 = Some (LockedBy 0)" using A f by simp
  have a2: "pc (commands (run failing_iterator record_item [1, 1, 0] (step failing_iterator record_item 0 ?sf)) ! 0) = Failed \<and>
      synchros (run failing_iterator record_item [1, 1, 0] (step failing_iterator record_item 0 ?sf)) 2 = Some (LockedBy 0)"
    using A gf f by metis
  have b1: "synchros (step source_iterator record_item 0 (run source_iterator record_item [1, 1]
         (step source_iterator record_item 0 ?ss))) 2 = Some Unlocked"
    using B gs n f by metis
  show ?thesis using pf a1 a2 b1 by simp
qed

theorem fetch_failure_counterexample:
  "pc (commands (iterate_state failing_iterator record_item 0 [0, 0, 1, 0, 1] [0, 1] 2 example_world) ! 0) = Failed \<and>
   synchros (iterate_state failing_iterator record_item 0 [0, 0, 1, 0, 1] [0, 1] 2 example_world) 2 = Some (LockedBy 0) \<and>
   pc (commands (iterate_state failing_iterator record_item 0 [0, 0, 1, 0, 1] [0, 1] 2 example_world) ! 1) = AtLock \<and>
   trace (iterate_state failing_iterator record_item 0 [0, 0, 1, 0, 1] [0, 1] 2 example_world) =
     [NewSynchro 2, Reset, Dispatch 2, Lock 0 2, GetFailed 0 SourceAccessFailure]"
  by code_simp

text \<open>
  C3, as the code has it. \<^verbatim>\<open>iterate\<close> checks nothing and reports no configuration error:
  for every group size, zero included, and every vector of functors, the empty one
  included, it creates the synchronizer, resets the iterator and dispatches one command per
  functor. With an empty vector the dispatch of no command returns at once, and \<^verbatim>\<open>iterate\<close>
  returns normally without any functor call.
\<close>

theorem iterate_checks_no_configuration:
  "take 3 (trace (iterate_state it app d sched fs G w)) =
     [NewSynchro (fresh w), Reset, Dispatch (length fs)] \<and>
   (\<exists>w'. iterate it app d sched [] G w =
     Some (w', [NewSynchro (fresh w), Reset, Dispatch 0, DeleteSynchro (fresh w)])) \<and>
   passed [NewSynchro (fresh w), Reset, Dispatch 0, DeleteSynchro (fresh w)] = ([] :: 'a list)"
proof -
  let ?st = "iterate_state it app d sched [] G w"
  have "commands (iterate_state it app d [] [] G w) = []" by (simp add: iterate_state_Nil)
  then have eq: "?st = iterate_state it app d [] [] G w"
    by (subst iterate_state_run) (rule run_no_commands)
  then have "all_finished ?st" and "trace ?st = [NewSynchro (fresh w), Reset, Dispatch 0]"
    by (simp_all add: all_finished_def iterate_state_Nil)
  then have "iterate it app d sched [] G w =
      Some (world.truncate (delete_synchro (fresh w) ?st),
            [NewSynchro (fresh w), Reset, Dispatch 0, DeleteSynchro (fresh w)])"
    by (simp add: iterate_Some)
  then show ?thesis by (simp add: iterate_state_trace_start passed_def)
qed

theorem configuration_error_counterexample:
  "map_option snd (iterate source_iterator record_item 0 [] [] 2 example_world) =
     Some [NewSynchro 2, Reset, Dispatch 0, DeleteSynchro 2] \<and>
   trace (iterate_state source_iterator record_item 0 [0, 0, 0] [0] 0 example_world) =
     [NewSynchro 2, Reset, Dispatch 1, Lock 0 2, Get 0 [] True, Unlock 0 2]"
  by code_simp



text \<open>
  C5. The lock is never held across processing. In every state that a call of \<^verbatim>\<open>iterate\<close>
  reaches, under every schedule and for every iterator and functor: a worker that is in its
  inner loop (about to call its functor, or about to leave the loop) does not hold the
  synchronizer of the call, and whenever a step of a worker is a functor call, the worker
  does not hold the synchronizer in the state in which it makes the call.
\<close>

theorem lock_released_before_functor:
  assumes "st = iterate_state it app d sched fs G w0" and "v < length fs"
  shows "(pc (commands st ! v) = AtFunctor i \<longrightarrow> synchros st (fresh w0) \<noteq> Some (LockedBy v)) \<and>
         (trace (step it app v st) = trace st @ [Call v a x] \<longrightarrow> synchros st (fresh w0) \<noteq> Some (LockedBy v))"
proof -
  have m: "mutex st" using assms(1) by (simp add: iterate_state_mutex)
  have v: "v < length (commands st)" using assms by simp
  have sid: "synchro (commands st ! v) = fresh w0" using assms by (simp add: iterate_state_static)
  have crit: "(synchros st (fresh w0) = Some (LockedBy v)) = in_critical (pc (commands st ! v))"
    using mutexD[OF m v] sid by simp
  have 1: "pc (commands st ! v) = AtFunctor i \<longrightarrow> synchros st (fresh w0) \<noteq> Some (LockedBy v)"
    using crit by (simp add: in_critical_def)
  have 2: "trace (step it app v st) = trace st @ [Call v a x] \<longrightarrow> synchros st (fresh w0) \<noteq> Some (LockedBy v)"
  proof (cases rule: step_cases[of it app v st])
    case (call j)
    then show ?thesis using crit by (simp add: in_critical_def)
  qed simp_all
  show ?thesis using 1 2 by simp
qed

theorem lock_released_before_functor_witness:
  "pc (commands (iterate_state source_iterator record_item 0 [0, 0, 0] [0, 1] 2 example_world) ! 0) = AtFunctor 0 \<and>
   trace (step source_iterator record_item 0 (iterate_state source_iterator record_item 0 [0, 0, 0] [0, 1] 2 example_world)) =
     trace (iterate_state source_iterator record_item 0 [0, 0, 0] [0, 1] 2 example_world) @ [Call 0 0 10] \<and>
   synchros (iterate_state source_iterator record_item 0 [0, 0, 0] [0, 1] 2 example_world) 2 \<noteq> Some (LockedBy 0)"
proof -
  let ?st = "iterate_state source_iterator record_item 0 [0, 0, 0] [0, 1] 2 example_world"
  have p: "pc (commands ?st ! 0) = AtFunctor 0" by code_simp
  have t: "trace (step source_iterator record_item 0 ?st) = trace ?st @ [Call 0 0 10]" by code_simp
  have f: "fresh example_world = 2" by (simp add: example_world_def)
  have "(0::nat) < length [0::nat, 1]" by simp
  from lock_released_before_functor[OF refl this, of source_iterator record_item 0 "[0, 0, 0]" 2 example_world 0 0 10]
  show ?thesis using p t f by simp
qed

text \<open>
  C6. Per-worker ordering. In every state that a call of \<^verbatim>\<open>iterate\<close> reaches, under every
  schedule and for every iterator and functor, the items that a worker has passed to its
  functor, in the order of the calls, followed by the items of its current batch that it has not
  passed yet, in the order of the vector, are the batches that this worker has fetched, in the
  order of its fetches, each batch from index 0 upwards. When the call has returned, the calls
  of the worker are exactly its batches, one after the other.
\<close>

theorem worker_processes_in_fetch_order:
  assumes "v < length fs"
  shows "calls_of v (trace (iterate_state it app d sched fs G w)) @
           pending (commands (iterate_state it app d sched fs G w) ! v) =
         concat (map fst (fetches_of v (trace (iterate_state it app d sched fs G w)))) \<and>
         (\<forall>w' tr. iterate it app d sched fs G w = Some (w', tr) \<longrightarrow>
            calls_of v tr = concat (map fst (fetches_of v tr)))"
proof -
  let ?st = "iterate_state it app d sched fs G w"
  have o: "calls_of v (trace ?st) @ pending (commands ?st ! v) = concat (map fst (fetches_of v (trace ?st)))"
    using ordered_iterate_state[OF assms] by (simp add: ordered_def)
  have "calls_of v tr = concat (map fst (fetches_of v tr))"
    if r: "iterate it app d sched fs G w = Some (w', tr)" for w' tr
  proof -
    have fin: "all_finished ?st" and tr: "tr = trace ?st @ [DeleteSynchro (fresh w)]"
      using r by (simp_all add: iterate_Some)
    have "pc (commands ?st ! v) = Finished" using all_finishedD[OF fin] assms by simp
    then have "pending (commands ?st ! v) = []" by (simp add: pending_def)
    then show ?thesis using o tr by (simp add: calls_of_def fetches_of_def)
  qed
  then show ?thesis using o by blast
qed

theorem worker_processes_in_fetch_order_witness:
  "iterate source_iterator record_item 0 example_schedule [0, 1] 2 example_world \<noteq> None \<and>
   fetches_of 0 (snd (the (iterate source_iterator record_item 0 example_schedule [0, 1] 2 example_world))) =
     [([10, 11], True), ([14], False)] \<and>
   calls_of 0 (snd (the (iterate source_iterator record_item 0 example_schedule [0, 1] 2 example_world))) =
     [10, 11, 14]"
proof -
  let ?r = "iterate source_iterator record_item 0 example_schedule [0, 1] 2 example_world"
  have ne: "?r \<noteq> None" by code_simp
  then have r: "?r = Some (fst (the ?r), snd (the ?r))" by simp
  have f: "fetches_of 0 (snd (the ?r)) = [([10, 11], True), ([14], False)]" by code_simp
  have len: "(0::nat) < length [0::nat, 1]" by simp
  have "calls_of 0 (snd (the ?r)) = concat (map fst (fetches_of 0 (snd (the ?r))))"
    using worker_processes_in_fetch_order[OF len, of source_iterator record_item 0 example_schedule 2 example_world] r
    by blast
  then show ?thesis using ne f by simp
qed






text \<open>
  C10. The caller's functor is left alone. When no functor object lives at or beyond the
  next address of the allocator, a call of the overload with one functor that returns has
  made no functor call on the caller's object, and leaves the store of functor objects as it
  found it: the caller's functor, like every other object that was live before the call, has the
  state it had, and the copies are gone.
\<close>

theorem original_functor_untouched:
  assumes "iterate_single it app d units sched a0 G w = Some (w', tr)"
    and "\<forall>a \<ge> fresh w. functors w a = None"
  shows "functors w' a0 = functors w a0 \<and>
         (\<forall>e \<in> set tr. \<forall>va \<in> set (called_by e). snd va \<noteq> a0) \<and>
         functors w' = functors w"
proof -
  from assms(1) obtain f w2 tr' where f: "functors w a0 = Some f"
    and it: "iterate it app d sched (fst (new_functors units f w)) G (snd (new_functors units f w)) = Some (w2, tr')"
    and w': "w' = delete_functors (fst (new_functors units f w)) w2"
    and tr: "tr = map NewFunctor (fst (new_functors units f w)) @ tr' @ map DeleteFunctor (fst (new_functors units f w))"
    by (rule iterate_single_Some)
  let ?as = "fst (new_functors units f w)"
  let ?w1 = "snd (new_functors units f w)"
  note nf = new_functors_result[of units f w]
  have as: "set ?as = {a. fresh w \<le> a \<and> a < fresh w + units}" using nf by auto
  have a0: "a0 \<notin> set ?as" using assms(2) f as by auto
  note fr = iterate_functor_frame[OF it]
  have same: "functors w' a = functors w a" for a
  proof (cases "a \<in> set ?as")
    case True
    then have "functors w' a = None" unfolding w' using delete_functors_result[of ?as w2] by simp
    moreover have "functors w a = None" using True as assms(2) by simp
    ultimately show ?thesis by simp
  next
    case False
    then have "functors w' a = functors w2 a" unfolding w' using delete_functors_result[of ?as w2] by simp
    also have "\<dots> = functors ?w1 a" using fr(1) False by simp
    also have "\<dots> = functors w a" using nf False as by auto
    finally show ?thesis .
  qed
  have calls: "\<forall>e \<in> set tr. \<forall>va \<in> set (called_by e). snd va \<noteq> a0"
  proof (intro ballI)
    fix e va assume e: "e \<in> set tr" and va: "va \<in> set (called_by e)"
    have "e \<in> set tr'" using e va unfolding tr by auto
    then have "fst va < length ?as \<and> snd va = ?as ! fst va" using fr(2) va by blast
    then have "snd va \<in> set ?as" by simp
    then show "snd va \<noteq> a0" using a0 by auto
  qed
  show ?thesis using same calls by (simp add: fun_eq_iff)
qed

theorem original_functor_untouched_witness:
  "iterate_single source_iterator record_item 0 2 example_schedule 0 2 example_world \<noteq> None \<and>
   functors (fst (the (iterate_single source_iterator record_item 0 2 example_schedule 0 2 example_world))) 0 =
     functors example_world 0 \<and>
   functors example_world 0 = Some []"
proof -
  let ?r = "iterate_single source_iterator record_item 0 2 example_schedule 0 2 example_world"
  have ne: "?r \<noteq> None" by code_simp
  then have r: "?r = Some (fst (the ?r), snd (the ?r))" by simp
  have wf: "\<forall>a \<ge> fresh example_world. functors example_world a = None"
    by (simp add: example_world_def)
  have "functors (fst (the ?r)) 0 = functors example_world 0"
    using original_functor_untouched[OF r wf] by blast
  moreover have "functors example_world 0 = Some []" by (simp add: example_world_def)
  ultimately show ?thesis using ne by blast
qed

end
